theory Spec2Isabelle
  imports Main "HOL-Library.Char_ord" "HOL-Library.List_Lexorder" "HOL-Library.Code_Target_Nat"
begin

section \<open>Module map generator: data model\<close>

text \<open>
  A JavaScript object used as \<open>Record<string, T>\<close> is modelled by the list of its own
  properties in the order they were created. An assignment \<open>r[k] = v\<close> overwrites the
  value of an existing key in place and appends a new key at the end. The key
  \<open>__proto__\<close> is special: on an object literal the assignment runs the inherited
  setter, which ignores a string and takes an object as the new prototype; in both
  cases no own property is created.
\<close>

type_synonym 'v Record = "(string \<times> 'v) list"

fun rec_put :: "string \<Rightarrow> 'v \<Rightarrow> 'v Record \<Rightarrow> 'v Record" where
  "rec_put k v [] = [(k, v)]"
| "rec_put k v ((k', v') # r) = (if k' = k then (k, v) # r else (k', v') # rec_put k v r)"

definition rec_set :: "'v Record \<Rightarrow> string \<Rightarrow> 'v \<Rightarrow> 'v Record" where
  "rec_set r k v = (if k = ''__proto__'' then r else rec_put k v r)"

definition rec_get :: "'v Record \<Rightarrow> string \<Rightarrow> 'v option" where
  "rec_get r k = map_of r k"

text \<open>\<open>Object.keys\<close> lists the keys that are array indices first, in ascending numeric
  order, and then the other keys in the order of their creation. An array index is
  the decimal numeral, without leading zeros, of a number below \<open>2^32 - 1\<close>.\<close>

definition is_digit :: "char \<Rightarrow> bool" where
  "is_digit c = (c \<in> set ''0123456789'')"

definition digits_value :: "string \<Rightarrow> nat" where
  "digits_value k = foldl (\<lambda>n c. 10 * n + (of_char c - 48)) 0 k"

definition is_index :: "string \<Rightarrow> bool" where
  "is_index k =
     (k \<noteq> [] \<and> list_all is_digit k \<and> (hd k \<noteq> CHR ''0'' \<or> k = ''0'') \<and>
      digits_value k < 4294967295)"

definition own_entries :: "'v Record \<Rightarrow> 'v Record" where
  "own_entries r =
     sort_key (\<lambda>e. digits_value (fst e)) (filter (\<lambda>e. is_index (fst e)) r) @
     filter (\<lambda>e. \<not> is_index (fst e)) r"

definition object_keys :: "'v Record \<Rightarrow> string list" where
  "object_keys r = map fst (own_entries r)"

text \<open>The interfaces of \<open>types.ts\<close>. The fields are declared as strings, but nothing
  checks at run time what the oracle's reply holds, so the values are of an arbitrary
  type \<open>'v\<close> of JavaScript values, and a description can be \<open>undefined\<close>, which is
  \<open>None\<close> here.\<close>

record 'v Module =
  description :: "'v option"
  calling :: "'v Record"
  callers :: "'v Record"

record 'v ModuleMap =
  modules :: "'v Module Record"

text \<open>What \<open>JSON.parse(response) as ReturnFormat\<close> yields, as far as the program looks at
  it. The cast is not checked: the value is \<open>null\<close>, or it is any other value, given
  by its properties \<open>description\<close> (\<open>None\<close> when it is \<open>undefined\<close>) and \<open>modules\<close>
  (\<open>None\<close> when it is \<open>undefined\<close> or \<open>null\<close>, otherwise the own enumerable properties of
  that value: the members of an object, the indexed elements of an array or a
  string, none for a number or a boolean).\<close>

datatype 'v parsed = ParsedNull | Parsed "'v option" "'v Record option"

text \<open>An awaited call either never settles, rejects with an error, or yields a value.\<close>

datatype error =
  ReadFailure | ApiKeyMissing | ApiFailure | ToolNotFound string | SyntaxError | TypeError
  | ToolFailure

datatype 'a promise = Pending | Rejected error | Fulfilled 'a

section \<open>String helpers\<close>

definition startsWith :: "string \<Rightarrow> string \<Rightarrow> bool" where
  "startsWith s p = (take (length p) s = p)"

definition endsWith :: "string \<Rightarrow> string \<Rightarrow> bool" where
  "endsWith s p = (length p \<le> length s \<and> drop (length s - length p) s = p)"

text \<open>\<open>s.split("->")\<close>: the pieces between the occurrences of the separator, found from
  left to right without overlap. The result always has at least one piece.\<close>

fun split_arrow :: "string \<Rightarrow> string list" where
  "split_arrow [] = [[]]"
| "split_arrow [c] = [[c]]"
| "split_arrow (c # d # cs) =
     (if c = CHR ''-'' \<and> d = CHR ''>'' then [] # split_arrow cs
      else (case split_arrow (d # cs) of
              [] \<Rightarrow> [[c]]
            | s # ss \<Rightarrow> (c # s) # ss))"

fun has_arrow :: "string \<Rightarrow> bool" where
  "has_arrow [] = False"
| "has_arrow [c] = False"
| "has_arrow (c # d # cs) = ((c = CHR ''-'' \<and> d = CHR ''>'') \<or> has_arrow (d # cs))"

text \<open>The key \<open>`${file}->${modulePath}`\<close> of \<open>callingReasons\<close>, and the destructuring
  \<open>const [module1, module2] = pathPairs.split("->")\<close>: an element the array does not
  have is \<open>undefined\<close>.\<close>

definition path_pair :: "string \<Rightarrow> string \<Rightarrow> string" where
  "path_pair file modulePath = file @ ''->'' @ modulePath"

definition nth_opt :: "'a list \<Rightarrow> nat \<Rightarrow> 'a option" where
  "nth_opt xs i = (if i < length xs then Some (xs ! i) else None)"

definition split_pair :: "string \<Rightarrow> string option \<times> string option" where
  "split_pair pathPairs =
     (let parts = split_arrow pathPairs in (nth_opt parts 0, nth_opt parts 1))"

text \<open>A property key that is \<open>undefined\<close> is the string \<open>"undefined"\<close>.\<close>

definition prop_key :: "string option \<Rightarrow> string" where
  "prop_key k = (case k of None \<Rightarrow> ''undefined'' | Some s \<Rightarrow> s)"

section \<open>File enumeration (utils.ts)\<close>

text \<open>The directory tree as \<open>fs.readdirSync(dir, {withFileTypes: true})\<close> shows it: each
  directory lists its entries in the order \<open>readdirSync\<close> returns them; an entry is a
  regular file, a directory, a symbolic link (with what it leads to, if anything), or
  something else (a socket, a device). For a link and for the last kind both
  \<open>isFile()\<close> and \<open>isDirectory()\<close> are false. The tree is one that can be read:
  a directory that is missing or unreadable makes \<open>readdirSync\<close> throw before any file
  is analysed.\<close>

datatype fsnode = File | Dir "(string \<times> fsnode) list" | Link "fsnode option" | Other

text \<open>\<open>path.relative(directory, path.join(dir, entry.name))\<close> for an entry of the directory
  whose own relative path is \<open>rel\<close> (empty for the root).\<close>

definition relativePath :: "string \<Rightarrow> string \<Rightarrow> string" where
  "relativePath rel name = (if rel = [] then name else rel @ ''/'' @ name)"

text \<open>The file test of the later \<open>getTypescriptFiles\<close> in \<open>utils.ts\<close> (it also excludes
  \<open>.config.ts\<close>), and of the earlier one.\<close>

definition included :: "string \<Rightarrow> bool" where
  "included name =
     ((endsWith name ''.ts'' \<or> endsWith name ''.tsx'') \<and>
      \<not> endsWith name ''.d.ts'' \<and> \<not> endsWith name ''.test.ts'' \<and>
      \<not> endsWith name ''.config.ts'')"

definition included_v1 :: "string \<Rightarrow> bool" where
  "included_v1 name =
     ((endsWith name ''.ts'' \<or> endsWith name ''.tsx'') \<and>
      \<not> endsWith name ''.d.ts'' \<and> \<not> endsWith name ''.test.ts'')"

definition entered :: "string \<Rightarrow> bool" where
  "entered name = (\<not> startsWith name ''.'' \<and> name \<noteq> ''node_modules'')"

fun traverseDirectory :: "(string \<Rightarrow> bool) \<Rightarrow> string \<Rightarrow> (string \<times> fsnode) list \<Rightarrow> string list" where
  "traverseDirectory inc rel [] = []"
| "traverseDirectory inc rel ((name, Dir sub) # entries) =
     (if entered name
      then traverseDirectory inc (relativePath rel name) sub @ traverseDirectory inc rel entries
      else traverseDirectory inc rel entries)"
| "traverseDirectory inc rel ((name, File) # entries) =
     (if inc name
      then relativePath rel name # traverseDirectory inc rel entries
      else traverseDirectory inc rel entries)"
| "traverseDirectory inc rel ((name, Link target) # entries) = traverseDirectory inc rel entries"
| "traverseDirectory inc rel ((name, Other) # entries) = traverseDirectory inc rel entries"

definition getTypescriptFiles :: "(string \<times> fsnode) list \<Rightarrow> string list" where
  "getTypescriptFiles directory = traverseDirectory included [] directory"

definition getTypescriptFiles_v1 :: "(string \<times> fsnode) list \<Rightarrow> string list" where
  "getTypescriptFiles_v1 directory = traverseDirectory included_v1 [] directory"

text \<open>What the tree holds, for stating which paths are enumerated: \<open>file_in es ds n\<close> says
  that below the entries \<open>es\<close> the directories \<open>ds\<close> lead, one inside the other, to a
  regular file named \<open>n\<close>; \<open>path_from rel ds n\<close> is the relative path of that file.\<close>

fun file_in :: "(string \<times> fsnode) list \<Rightarrow> string list \<Rightarrow> string \<Rightarrow> bool" where
  "file_in es [] n = ((n, File) \<in> set es)"
| "file_in es (d # ds) n = (\<exists>sub. (d, Dir sub) \<in> set es \<and> file_in sub ds n)"

definition path_from :: "string \<Rightarrow> string list \<Rightarrow> string \<Rightarrow> string" where
  "path_from rel ds n = relativePath (foldl relativePath rel ds) n"

text \<open>The exclusion as the specification words it: the suffixes \<open>.d.<ext>\<close>, \<open>.test.<ext>\<close>
  and \<open>.config.<ext>\<close> for both extensions.\<close>

definition spec_excluded :: "string \<Rightarrow> bool" where
  "spec_excluded name =
     (endsWith name ''.d.ts'' \<or> endsWith name ''.d.tsx'' \<or>
      endsWith name ''.test.ts'' \<or> endsWith name ''.test.tsx'' \<or>
      endsWith name ''.config.ts'' \<or> endsWith name ''.config.tsx'')"

section \<open>Path resolution (utils.ts)\<close>

text \<open>The functions of Node's \<open>path\<close> module that \<open>resolveImportPath\<close> calls, in their POSIX
  form. \<open>path.normalize\<close> works on the pieces between slashes: an empty piece and \<open>.\<close>
  are skipped, \<open>..\<close> removes the piece before it unless there is none or it is \<open>..\<close>
  itself, in which case \<open>..\<close> is kept when the path is relative and skipped when it is
  absolute.\<close>

fun split_slash :: "string \<Rightarrow> string list" where
  "split_slash [] = [[]]"
| "split_slash (c # cs) =
     (if c = CHR ''/'' then [] # split_slash cs
      else (case split_slash cs of
              [] \<Rightarrow> [[c]]
            | s # ss \<Rightarrow> (c # s) # ss))"

fun join_slash :: "string list \<Rightarrow> string" where
  "join_slash [] = []"
| "join_slash [s] = s"
| "join_slash (s # t # ss) = s @ ''/'' @ join_slash (t # ss)"

definition normalize_step :: "bool \<Rightarrow> string list \<Rightarrow> string \<Rightarrow> string list" where
  "normalize_step allowAboveRoot res seg =
     (if seg = [] \<or> seg = ''.'' then res
      else if seg = ''..'' then
        (if res \<noteq> [] \<and> last res \<noteq> ''..'' then butlast res
         else if allowAboveRoot then res @ [''..''] else res)
      else res @ [seg])"

definition normalizeString :: "string \<Rightarrow> bool \<Rightarrow> string" where
  "normalizeString path allowAboveRoot =
     join_slash (foldl (normalize_step allowAboveRoot) [] (split_slash path))"

definition normalize :: "string \<Rightarrow> string" where
  "normalize path =
     (if path = [] then ''.''
      else
        let isAbsolute = (hd path = CHR ''/'');
            trailingSeparator = (last path = CHR ''/'');
            p = normalizeString path (\<not> isAbsolute)
        in if p = [] then (if isAbsolute then ''/'' else if trailingSeparator then ''./'' else ''.'')
           else (if isAbsolute then ''/'' else []) @ p @ (if trailingSeparator then ''/'' else []))"

text \<open>\<open>path.join(...args)\<close>: the non-empty arguments joined by slashes, normalized.\<close>

definition join :: "string list \<Rightarrow> string" where
  "join args =
     (let parts = filter (\<lambda>a. a \<noteq> []) args
      in if parts = [] then ''.'' else normalize (join_slash parts))"

text \<open>\<open>path.dirname\<close>: scanning from the end down to index 1, trailing slashes are passed
  over, then the last piece, and the path is cut at the slash found before it.\<close>

definition dirname :: "string \<Rightarrow> string" where
  "dirname path =
     (if path = [] then ''.''
      else
        let hasRoot = (hd path = CHR ''/'');
            scanned = dropWhile (\<lambda>c. c \<noteq> CHR ''/'')
                        (dropWhile (\<lambda>c. c = CHR ''/'') (rev (tl path)))
        in if scanned = [] then (if hasRoot then ''/'' else ''.'')
           else if hasRoot \<and> tl scanned = [] then ''//''
           else hd path # rev (tl scanned))"

text \<open>The disk: what lies at an absolute path, if anything, with links followed.
  \<open>fs.existsSync\<close> is true for whatever exists there, a regular file, a directory or
  anything else.\<close>

type_synonym disk = "string \<Rightarrow> fsnode option"

definition existsSync :: "disk \<Rightarrow> string \<Rightarrow> bool" where
  "existsSync d p = (d p \<noteq> None)"

definition possiblePaths :: "string \<Rightarrow> string list" where
  "possiblePaths resolvedPath =
     [resolvedPath,
      resolvedPath @ ''.ts'',
      resolvedPath @ ''.tsx'',
      join [resolvedPath, ''index.ts''],
      join [resolvedPath, ''index.tsx'']]"

definition resolveImportPath :: "disk \<Rightarrow> string \<Rightarrow> string \<Rightarrow> string \<Rightarrow> string" where
  "resolveImportPath d importPath importingFilePath baseDirectory =
     (if \<not> startsWith importPath ''.'' then importPath
      else
        let importingDir = dirname importingFilePath;
            resolvedPath = normalize (join [importingDir, importPath])
        in case find (\<lambda>possiblePath. existsSync d (join [baseDirectory, possiblePath]))
                  (possiblePaths resolvedPath) of
             Some possiblePath \<Rightarrow> possiblePath
           | None \<Rightarrow> resolvedPath @ ''.ts'')"

text \<open>What the five probes find on the disk, in order.\<close>

definition probes :: "disk \<Rightarrow> string \<Rightarrow> string \<Rightarrow> fsnode option list" where
  "probes d baseDirectory resolvedPath =
     map (\<lambda>possiblePath. d (join [baseDirectory, possiblePath])) (possiblePaths resolvedPath)"

text \<open>A disk that holds the tree \<open>entries\<close> at the absolute path \<open>directory\<close> and nothing
  outside it. A link stands for what it leads to; a link that leads nowhere does not
  exist for \<open>fs.existsSync\<close>.\<close>

fun follow :: "fsnode \<Rightarrow> fsnode option" where
  "follow (Link None) = None"
| "follow (Link (Some target)) = follow target"
| "follow nd = Some nd"

fun node_at :: "(string \<times> fsnode) list \<Rightarrow> string list \<Rightarrow> fsnode option" where
  "node_at es [] = Some (Dir es)"
| "node_at es (s # ss) =
     (if s = [] then node_at es ss
      else (case map_of es s of
              None \<Rightarrow> None
            | Some nd \<Rightarrow>
                (case follow nd of
                   None \<Rightarrow> None
                 | Some (Dir sub) \<Rightarrow> node_at sub ss
                 | Some found \<Rightarrow> if ss = [] then Some found else None)))"

definition disk_of :: "string \<Rightarrow> (string \<times> fsnode) list \<Rightarrow> disk" where
  "disk_of directory entries p =
     (if p = directory then Some (Dir entries)
      else if startsWith p (directory @ ''/'')
      then node_at entries (split_slash (drop (length directory + 1) p))
      else None)"

text \<open>The resolution as the specification words it: the first candidate that is an
  enumerated file.\<close>

definition resolveImportPath_spec :: "string list \<Rightarrow> string \<Rightarrow> string \<Rightarrow> string option" where
  "resolveImportPath_spec files importPath importingFilePath =
     find (\<lambda>possiblePath. possiblePath \<in> set files)
       (possiblePaths (normalize (join [dirname importingFilePath, importPath])))"

section \<open>createModuleMap (module-map.ts)\<close>

text \<open>The oracle is given by what the loop body obtains for each file from
  \<open>getFileContent\<close>, \<open>await callOpenAI(conversation, tools, true)\<close> and
  \<open>JSON.parse(response)\<close>: the call never settles, reading the file or the call
  rejects, \<open>JSON.parse\<close> throws a \<open>SyntaxError\<close>, or a value is parsed. The conversation
  sent for a file is built from the file list, the file's path and its content, so
  the outcome is a function of the path.

  \<open>Object.keys(r)\<close> followed by \<open>r[key]\<close> visits the own properties of \<open>r\<close> in the order of
  \<open>Object.keys\<close>; the loops below run over \<open>own_entries r\<close>.\<close>

fun record_modules :: "string \<Rightarrow> 'v Record \<Rightarrow> 'v Record \<Rightarrow> 'v Record" where
  "record_modules file [] callingReasons = callingReasons"
| "record_modules file ((modulePath, reason) # rest) callingReasons =
     record_modules file rest (rec_set callingReasons (path_pair file modulePath) reason)"

text \<open>The first loop. Destructuring \<open>null\<close> throws a \<open>TypeError\<close>, and so does
  \<open>Object.keys(modules)\<close> when \<open>modules\<close> is \<open>undefined\<close> or \<open>null\<close>; a missing
  \<open>description\<close> is stored as it is.\<close>

fun analyse_files ::
  "(string \<Rightarrow> 'v parsed promise) \<Rightarrow> string list \<Rightarrow> 'v Record \<times> 'v option Record
     \<Rightarrow> ('v Record \<times> 'v option Record) promise" where
  "analyse_files oracle [] (callingReasons, moduleDescriptions) =
     Fulfilled (callingReasons, moduleDescriptions)"
| "analyse_files oracle (file # rest) (callingReasons, moduleDescriptions) =
     (case oracle file of
        Pending \<Rightarrow> Pending
      | Rejected e \<Rightarrow> Rejected e
      | Fulfilled ParsedNull \<Rightarrow> Rejected TypeError
      | Fulfilled (Parsed description' None) \<Rightarrow> Rejected TypeError
      | Fulfilled (Parsed description' (Some modules')) \<Rightarrow>
          analyse_files oracle rest
            (record_modules file (own_entries modules') callingReasons,
             rec_set moduleDescriptions file description'))"

fun collect_edges ::
  "string \<Rightarrow> 'v Record \<Rightarrow> 'v Record \<times> 'v Record \<Rightarrow> 'v Record \<times> 'v Record" where
  "collect_edges file [] (calls, callers') = (calls, callers')"
| "collect_edges file ((pathPairs, reason) # rest) (calls, callers') =
     (case split_pair pathPairs of (module1, module2) \<Rightarrow>
        if module1 = Some file
        then collect_edges file rest (rec_set calls (prop_key module2) reason, callers')
        else if module2 = Some file
        then collect_edges file rest (calls, rec_set callers' (prop_key module1) reason)
        else collect_edges file rest (calls, callers'))"

text \<open>The body of the second loop: the entry stored under \<open>moduleMap.modules[file]\<close>. A
  description that was never stored reads as \<open>undefined\<close>, like one stored as
  \<open>undefined\<close>.\<close>

definition module_entry :: "'v Record \<Rightarrow> 'v option Record \<Rightarrow> string \<Rightarrow> 'v Module" where
  "module_entry callingReasons moduleDescriptions file =
     (case collect_edges file (own_entries callingReasons) ([], []) of (calls, callers') \<Rightarrow>
        \<lparr>description = (case rec_get moduleDescriptions file of None \<Rightarrow> None | Some d \<Rightarrow> d),
         calling = calls, callers = callers'\<rparr>)"

fun build_modules ::
  "'v Record \<Rightarrow> 'v option Record \<Rightarrow> string list \<Rightarrow> 'v Module Record \<Rightarrow> 'v Module Record" where
  "build_modules callingReasons moduleDescriptions [] ms = ms"
| "build_modules callingReasons moduleDescriptions (file # rest) ms =
     build_modules callingReasons moduleDescriptions rest
       (rec_set ms file (module_entry callingReasons moduleDescriptions file))"

definition createModuleMap ::
  "(string \<times> fsnode) list \<Rightarrow> (string \<Rightarrow> 'v parsed promise) \<Rightarrow> 'v ModuleMap promise" where
  "createModuleMap directory oracle =
     (let files = getTypescriptFiles directory in
      case analyse_files oracle files ([], []) of
        Pending \<Rightarrow> Pending
      | Rejected e \<Rightarrow> Rejected e
      | Fulfilled (callingReasons, moduleDescriptions) \<Rightarrow>
          Fulfilled \<lparr>modules = build_modules callingReasons moduleDescriptions files []\<rparr>)"

section \<open>The oracle call (openai-tools.ts)\<close>

datatype role = System | User | Assistant | Tool

record Message =
  role :: role
  content :: string
  msg_name :: "string option"

record Conversation =
  messages :: "Message list"

text \<open>A tool: of a parameter's schema only \<open>optional\<close> is read by the program; the
  arguments of a call are a record of strings, and running the tool is awaited.\<close>

record ParamSpec =
  param_type :: string
  param_description :: string
  optional :: bool

record OpenAITool =
  tool_name :: string
  tool_description :: string
  parameters :: "ParamSpec Record"
  execute :: "string Record \<Rightarrow> string promise"

text \<open>What is sent to \<open>openai.chat.completions.create\<close> and what comes back as
  \<open>response.choices[0].message\<close>. The arguments of a tool call arrive as text;
  \<open>function_arguments\<close> is what \<open>JSON.parse\<close> makes of it, \<open>None\<close> when it throws.\<close>

record ToolSpec =
  fn_name :: string
  fn_description :: string
  properties :: "ParamSpec Record"
  required :: "string list"

record Request =
  req_model :: string
  req_messages :: "(role \<times> string) list"
  req_tools :: "ToolSpec list option"
  req_tool_choice :: "string option"
  response_format :: "string option"

record ToolCall =
  function_name :: string
  function_arguments :: "string Record option"

record AssistantMessage =
  am_content :: "string option"
  tool_calls :: "ToolCall list"

type_synonym client = "Request \<Rightarrow> AssistantMessage promise"

definition createConversation :: "string option \<Rightarrow> Conversation" where
  "createConversation systemPrompt =
     (case systemPrompt of
        None \<Rightarrow> \<lparr>messages = []\<rparr>
      | Some p \<Rightarrow>
          if p = [] then \<lparr>messages = []\<rparr>
          else \<lparr>messages = [\<lparr>role = System, content = p, msg_name = None\<rparr>]\<rparr>)"

definition addUserMessage :: "Conversation \<Rightarrow> string \<Rightarrow> Conversation" where
  "addUserMessage conversation text =
     \<lparr>messages = messages conversation @ [\<lparr>role = User, content = text, msg_name = None\<rparr>]\<rparr>"

definition openaiTools :: "OpenAITool list \<Rightarrow> ToolSpec list" where
  "openaiTools ts =
     map (\<lambda>t. \<lparr>fn_name = tool_name t, fn_description = tool_description t,
               properties = parameters t,
               required = map fst (filter (\<lambda>(param, spec). \<not> optional spec) (parameters t))\<rparr>)
       ts"

text \<open>\<open>toolMap.set(tool.name, tool.execute)\<close> for each tool in turn: a later tool of the
  same name replaces an earlier one.\<close>

definition toolMap :: "OpenAITool list \<Rightarrow> string \<Rightarrow> (string Record \<Rightarrow> string promise) option" where
  "toolMap ts = map_of (rev (map (\<lambda>t. (tool_name t, execute t)) ts))"

definition api_message :: "Message \<Rightarrow> role \<times> string" where
  "api_message msg =
     (case role msg of
        Tool \<Rightarrow>
          (User,
           ''Tool '' @ (case msg_name msg of None \<Rightarrow> ''unknown''
                        | Some n \<Rightarrow> if n = [] then ''unknown'' else n)
             @ '' response: '' @ content msg)
      | r \<Rightarrow> (r, content msg))"

definition request :: "Conversation \<Rightarrow> OpenAITool list \<Rightarrow> bool option \<Rightarrow> Request" where
  "request conversation ts forceJSON =
     \<lparr>req_model = ''gpt-4.1-mini-2025-04-14'',
      req_messages = map api_message (messages conversation),
      req_tools = (if openaiTools ts \<noteq> [] then Some (openaiTools ts) else None),
      req_tool_choice = (if openaiTools ts \<noteq> [] then Some ''auto'' else None),
      response_format = (if forceJSON = Some True then Some ''json_object'' else None)\<rparr>"

fun run_tool_calls ::
  "(string \<Rightarrow> (string Record \<Rightarrow> string promise) option) \<Rightarrow> ToolCall list \<Rightarrow> Conversation
     \<Rightarrow> Conversation promise" where
  "run_tool_calls tm [] updatedConversation = Fulfilled updatedConversation"
| "run_tool_calls tm (toolCall # rest) updatedConversation =
     (case tm (function_name toolCall) of
        None \<Rightarrow> Rejected (ToolNotFound (function_name toolCall))
      | Some toolFunction \<Rightarrow>
          (case function_arguments toolCall of
             None \<Rightarrow> Rejected SyntaxError
           | Some args \<Rightarrow>
               (case toolFunction args of
                  Pending \<Rightarrow> Pending
                | Rejected e \<Rightarrow> Rejected e
                | Fulfilled toolResult \<Rightarrow>
                    run_tool_calls tm rest
                      \<lparr>messages = messages updatedConversation @
                         [\<lparr>role = Tool, content = toolResult,
                           msg_name = Some (function_name toolCall)\<rparr>]\<rparr>)))"

text \<open>One pass through the body of \<open>callOpenAI\<close>: it settles, or it ends in the
  recursive call with the conversation that holds the tool results. Logging
  \<open>conversation.messages[0].content\<close> throws when the conversation is empty. The
  argument \<open>forceJSON\<close> is optional: \<open>None\<close> is an omitted argument.\<close>

datatype round = Settled "(string \<times> Conversation) promise" | FollowUp Conversation

definition call_round ::
  "client option \<Rightarrow> Conversation \<Rightarrow> OpenAITool list \<Rightarrow> bool option \<Rightarrow> round" where
  "call_round openai conversation ts forceJSON =
     (case openai of
        None \<Rightarrow> Settled (Rejected ApiKeyMissing)
      | Some create \<Rightarrow>
          (case create (request conversation ts forceJSON) of
             Pending \<Rightarrow> Settled Pending
           | Rejected e \<Rightarrow> Settled (Rejected e)
           | Fulfilled assistantMessage \<Rightarrow>
               if messages conversation = [] then Settled (Rejected TypeError)
               else
                 let reply = (case am_content assistantMessage of None \<Rightarrow> [] | Some c \<Rightarrow> c);
                     updatedConversation =
                       \<lparr>messages = messages conversation @
                          [\<lparr>role = Assistant, content = reply, msg_name = None\<rparr>]\<rparr>
                 in if tool_calls assistantMessage \<noteq> []
                    then (case run_tool_calls (toolMap ts) (tool_calls assistantMessage)
                                 updatedConversation of
                            Pending \<Rightarrow> Settled Pending
                          | Rejected e \<Rightarrow> Settled (Rejected e)
                          | Fulfilled withResults \<Rightarrow> FollowUp withResults)
                    else Settled (Fulfilled (reply, updatedConversation))))"

text \<open>\<open>callOpenAI\<close> with a bound on the number of follow-up calls: the recursion ends only
  when a reply has no tool calls, so a run that needs more follow-ups than the bound
  is not settled. The follow-up is \<open>callOpenAI(updatedConversation, tools)\<close>.\<close>

fun callOpenAI ::
  "nat \<Rightarrow> client option \<Rightarrow> Conversation \<Rightarrow> OpenAITool list \<Rightarrow> bool option
     \<Rightarrow> (string \<times> Conversation) promise" where
  "callOpenAI 0 openai conversation ts forceJSON =
     (case call_round openai conversation ts forceJSON of
        Settled p \<Rightarrow> p
      | FollowUp updatedConversation \<Rightarrow> Pending)"
| "callOpenAI (Suc n) openai conversation ts forceJSON =
     (case call_round openai conversation ts forceJSON of
        Settled p \<Rightarrow> p
      | FollowUp updatedConversation \<Rightarrow> callOpenAI n openai updatedConversation ts None)"

text \<open>A client for a sample run: asked for JSON it calls the tool; asked without that
  constraint it answers in prose. A second client differs from it on every request
  that forces JSON except the first one of the sample run.\<close>

definition import_lines_tool :: OpenAITool where
  "import_lines_tool =
     \<lparr>tool_name = ''get_import_lines'',
      tool_description = ''Get all import lines from a TypeScript file'',
      parameters =
        [(''filePath'',
          \<lparr>param_type = ''string'',
           param_description = ''Path to the TypeScript file relative to the base directory'',
           optional = False\<rparr>)],
      execute = (\<lambda>args. Fulfilled ''<import_line>import b from ./b</import_line>'')\<rparr>"

definition tool_call_reply :: AssistantMessage where
  "tool_call_reply =
     \<lparr>am_content = None,
      tool_calls = [\<lparr>function_name = ''get_import_lines'',
                     function_arguments = Some [(''filePath'', ''a.ts'')]\<rparr>]\<rparr>"

definition prose_client :: client where
  "prose_client r =
     (if response_format r = Some ''json_object'' then Fulfilled tool_call_reply
      else Fulfilled \<lparr>am_content = Some ''It imports b.'', tool_calls = []\<rparr>)"

definition sample_conversation :: Conversation where
  "sample_conversation = addUserMessage (createConversation None) ''Describe a.ts''"

definition strict_client :: client where
  "strict_client r =
     (if response_format r = None
         \<or> r = request sample_conversation [import_lines_tool] (Some True)
      then prose_client r else Rejected ApiFailure)"

section \<open>Scripted runs\<close>

text \<open>An oracle that answers from a table; a file the table does not list never gets an
  answer. The paths of the entries of a map that was produced, in the order they are
  emitted.\<close>

definition scripted_oracle ::
  "(string \<times> 'v parsed promise) list \<Rightarrow> string \<Rightarrow> 'v parsed promise" where
  "scripted_oracle script file = (case map_of script file of Some p \<Rightarrow> p | None \<Rightarrow> Pending)"

definition entry_paths :: "'v ModuleMap promise \<Rightarrow> string list" where
  "entry_paths p = (case p of Fulfilled m \<Rightarrow> object_keys (modules m) | _ \<Rightarrow> [])"

lemmas path_defs = resolveImportPath_def resolveImportPath_spec_def possiblePaths_def
  join_def normalize_def normalizeString_def normalize_step_def dirname_def existsSync_def
  disk_of_def startsWith_def probes_def

lemmas call_defs = call_round_def request_def openaiTools_def toolMap_def api_message_def
  createConversation_def addUserMessage_def import_lines_tool_def tool_call_reply_def
  prose_client_def sample_conversation_def strict_client_def

lemmas run_defs = createModuleMap_def module_entry_def getTypescriptFiles_def entered_def included_def
  startsWith_def endsWith_def relativePath_def rec_set_def path_pair_def split_pair_def
  nth_opt_def prop_key_def rec_get_def scripted_oracle_def object_keys_def entry_paths_def
  own_entries_def is_index_def is_digit_def

section \<open>Properties of the edge key\<close>

lemma split_arrow_not_Nil: "split_arrow s \<noteq> []"
  by (induction s rule: split_arrow.induct) (auto split: list.splits)

lemma split_arrow_plain: "\<not> has_arrow s \<Longrightarrow> split_arrow s = [s]"
  by (induction s rule: split_arrow.induct) (auto split: list.splits)

lemma split_arrow_append:
  "\<not> has_arrow f \<Longrightarrow> split_arrow (f @ CHR ''-'' # CHR ''>'' # t) = f # split_arrow t"
proof (induction f rule: split_arrow.induct)
  case 1
  then show ?case by simp
next
  case (2 c)
  then show ?case by (auto split: list.splits)
next
  case (3 c d cs)
  then show ?case by (auto split: list.splits)
qed

lemma has_arrow_append: "has_arrow (f @ CHR ''-'' # CHR ''>'' # t)"
  by (induction f rule: has_arrow.induct) auto

lemma split_arrow_two: "has_arrow s \<Longrightarrow> \<exists>a b r. split_arrow s = a # b # r"
proof (induction s rule: split_arrow.induct)
  case (3 c d cs)
  show ?case
  proof (cases "c = CHR ''-'' \<and> d = CHR ''>''")
    case True
    obtain b r where "split_arrow cs = b # r"
      using split_arrow_not_Nil [of cs] by (cases "split_arrow cs") auto
    with True show ?thesis by simp
  next
    case False
    with 3 obtain a b r where "split_arrow (d # cs) = a # b # r" by auto
    with False show ?thesis by auto
  qed
qed simp_all

lemma split_pair_path_pair:
  "\<not> has_arrow source \<Longrightarrow> \<not> has_arrow target \<Longrightarrow>
   split_pair (path_pair source target) = (Some source, Some target)"
  by (simp add: split_pair_def path_pair_def split_arrow_append split_arrow_plain nth_opt_def)

lemma path_pair_not_proto: "path_pair f mp \<noteq> ''__proto__''"
proof
  assume "path_pair f mp = ''__proto__''"
  then have "set (path_pair f mp) = set ''__proto__''" by simp
  moreover have "CHR ''>'' \<in> set (path_pair f mp)" by (simp add: path_pair_def)
  ultimately show False by simp
qed

lemma split_pair_source:
  "\<not> has_arrow f \<Longrightarrow> fst (split_pair (path_pair f mp)) = Some f"
  by (simp add: split_pair_def path_pair_def split_arrow_append nth_opt_def)

text \<open>A target that itself contains \<open>->\<close> (the oracle may report any string) is cut at
  its first arrow.\<close>

lemma edge_key_target_truncated:
  "split_pair (path_pair ''a.ts'' ''b->c.ts'') = (Some ''a.ts'', Some ''b'')"
  by (simp add: split_pair_def path_pair_def nth_opt_def)

section \<open>Records\<close>

lemma map_of_rec_put: "map_of (rec_put k v r) = (map_of r)(k \<mapsto> v)"
  by (induction r) (auto simp: fun_eq_iff)

lemma keys_rec_put:
  "map fst (rec_put k v r) = (if k \<in> fst ` set r then map fst r else map fst r @ [k])"
  by (induction r) (force simp: image_iff)+

lemma set_rec_put: "set (rec_put k v r) \<subseteq> insert (k, v) (set r)"
  by (induction r) (auto split: if_splits)

lemma rec_get_rec_set:
  "rec_get (rec_set r k v) k' =
     (if k = k' \<and> k \<noteq> ''__proto__'' then Some v else rec_get r k')"
  by (simp add: rec_get_def rec_set_def map_of_rec_put)

lemma keys_rec_set:
  "map fst (rec_set r k v) =
     (if k = ''__proto__'' \<or> k \<in> fst ` set r then map fst r else map fst r @ [k])"
  by (simp add: rec_set_def keys_rec_put)

lemma key_set_rec_set:
  "fst ` set (rec_set r k v) = (if k = ''__proto__'' then fst ` set r else insert k (fst ` set r))"
proof -
  have "set (map fst (rec_set r k v)) =
        (if k = ''__proto__'' then fst ` set r else insert k (fst ` set r))"
    unfolding keys_rec_set by auto
  then show ?thesis by simp
qed

lemma set_rec_set: "set (rec_set r k v) \<subseteq> insert (k, v) (set r)"
  using set_rec_put [of k v r] by (auto simp: rec_set_def)

lemma set_own_entries [simp]: "set (own_entries r) = set r"
  by (auto simp: own_entries_def)

lemma set_object_keys [simp]: "set (object_keys r) = fst ` set r"
  by (simp add: object_keys_def)

lemma own_entries_plain: "\<forall>k \<in> fst ` set r. \<not> is_index k \<Longrightarrow> own_entries r = r"
proof -
  assume a: "\<forall>k \<in> fst ` set r. \<not> is_index k"
  then have "filter (\<lambda>e. is_index (fst e)) r = []"
    by (auto simp: filter_empty_conv)
  moreover from a have "filter (\<lambda>e. \<not> is_index (fst e)) r = r"
    by (auto simp: filter_id_conv)
  ultimately show ?thesis by (simp add: own_entries_def)
qed

lemma is_index_digits: "is_index k \<Longrightarrow> c \<in> set k \<Longrightarrow> is_digit c"
  by (auto simp: is_index_def list_all_iff)

lemma endsWith_mem: "endsWith f suf \<Longrightarrow> c \<in> set suf \<Longrightarrow> c \<in> set f"
  by (metis endsWith_def in_set_dropD)

lemma not_index_of_suffix: "endsWith f ''.ts'' \<or> endsWith f ''.tsx'' \<Longrightarrow> \<not> is_index f"
proof
  assume s: "endsWith f ''.ts'' \<or> endsWith f ''.tsx''" and i: "is_index f"
  from s have "CHR ''.'' \<in> set f"
    by (auto intro: endsWith_mem)
  with i have "is_digit CHR ''.''" by (rule is_index_digits)
  then show False by (simp add: is_digit_def)
qed

lemma path_pair_not_index: "\<not> is_index (path_pair f mp)"
proof
  assume "is_index (path_pair f mp)"
  moreover have "CHR ''>'' \<in> set (path_pair f mp)" by (simp add: path_pair_def)
  ultimately have "is_digit CHR ''>''" by (rule is_index_digits)
  then show False by (simp add: is_digit_def)
qed

section \<open>Enumerated paths\<close>

lemma endsWith_append: "endsWith name suf \<Longrightarrow> endsWith (pre @ name) suf"
  by (auto simp: endsWith_def)

lemma relativePath_endsWith: "endsWith name suf \<Longrightarrow> endsWith (relativePath rel name) suf"
  using endsWith_append [of name suf "rel @ ''/''"] by (simp add: relativePath_def)

lemma traverseDirectory_suffix:
  "f \<in> set (traverseDirectory inc rel es) \<Longrightarrow>
   (\<And>n. inc n \<Longrightarrow> endsWith n ''.ts'' \<or> endsWith n ''.tsx'') \<Longrightarrow>
   endsWith f ''.ts'' \<or> endsWith f ''.tsx''"
proof (induction inc rel es rule: traverseDirectory.induct)
  case (3 inc rel name entries)
  then show ?case
    by (auto split: if_splits dest: relativePath_endsWith)
qed (auto split: if_splits)

lemma getTypescriptFiles_suffix:
  "f \<in> set (getTypescriptFiles directory) \<Longrightarrow> endsWith f ''.ts'' \<or> endsWith f ''.tsx''"
  unfolding getTypescriptFiles_def
  by (erule traverseDirectory_suffix) (simp add: included_def)

lemma undefined_of_suffix: "endsWith f ''.ts'' \<or> endsWith f ''.tsx'' \<Longrightarrow> f \<noteq> ''undefined''"
  by (auto simp: endsWith_def)

lemma not_proto_of_suffix: "endsWith f ''.ts'' \<or> endsWith f ''.tsx'' \<Longrightarrow> f \<noteq> ''__proto__''"
  by (auto simp: endsWith_def)

lemma getTypescriptFiles_not_proto:
  "f \<in> set (getTypescriptFiles directory) \<Longrightarrow> f \<noteq> ''__proto__''"
  using getTypescriptFiles_suffix not_proto_of_suffix by blast

lemma getTypescriptFiles_not_index:
  "f \<in> set (getTypescriptFiles directory) \<Longrightarrow> \<not> is_index f"
  using getTypescriptFiles_suffix not_index_of_suffix by blast

section \<open>The two loops of createModuleMap\<close>

lemma analyse_files_ConsE:
  assumes "analyse_files oracle (a # files) (cr0, md0) = Fulfilled (cr, md)"
  obtains d ms where "oracle a = Fulfilled (Parsed d (Some ms))"
    "analyse_files oracle files
       (record_modules a (own_entries ms) cr0, rec_set md0 a d) = Fulfilled (cr, md)"
  using assms by (auto split: promise.splits parsed.splits option.splits)

lemma createModuleMap_FulfilledE:
  assumes "createModuleMap directory oracle = Fulfilled m"
  obtains cr md where
    "analyse_files oracle (getTypescriptFiles directory) ([], []) = Fulfilled (cr, md)"
    "modules m = build_modules cr md (getTypescriptFiles directory) []"
  using assms
  by (auto simp: createModuleMap_def Let_def split: promise.splits prod.splits)

lemma module_entry_sel:
  "calling (module_entry cr md A) = fst (collect_edges A (own_entries cr) ([], []))"
  "callers (module_entry cr md A) = snd (collect_edges A (own_entries cr) ([], []))"
  "description (module_entry cr md A) = (case rec_get md A of None \<Rightarrow> None | Some d \<Rightarrow> d)"
  by (simp_all add: module_entry_def split: prod.splits)

lemma rec_get_build_modules:
  "rec_get (build_modules cr md files ms) A =
     (if A \<in> set files \<and> A \<noteq> ''__proto__'' then Some (module_entry cr md A)
      else rec_get ms A)"
  by (induction files arbitrary: ms) (auto simp: rec_get_rec_set)

lemma build_modules_keys:
  "distinct files \<Longrightarrow> ''__proto__'' \<notin> set files \<Longrightarrow> set files \<inter> fst ` set ms = {} \<Longrightarrow>
   map fst (build_modules cr md files ms) = map fst ms @ files"
proof (induction files arbitrary: ms)
  case Nil
  then show ?case by simp
next
  case (Cons a files)
  then show ?case
    by (auto simp: keys_rec_set key_set_rec_set)
qed


lemma record_modules_keys:
  "fst ` set (record_modules f ms cr) = fst ` set cr \<union> path_pair f ` fst ` set ms"
proof (induction ms arbitrary: cr)
  case Nil
  then show ?case by simp
next
  case (Cons a ms)
  obtain mp reason where a: "a = (mp, reason)" by (cases a)
  show ?case
    by (auto simp: a Cons.IH key_set_rec_set path_pair_not_proto)
qed

lemma record_modules_sound:
  "(k, v) \<in> set (record_modules f ms cr) \<Longrightarrow>
   (k, v) \<in> set cr \<or> (\<exists>mp. (mp, v) \<in> set ms \<and> k = path_pair f mp)"
proof (induction ms arbitrary: cr)
  case Nil
  then show ?case by simp
next
  case (Cons a ms)
  obtain mp reason where a: "a = (mp, reason)" by (cases a)
  from Cons.prems have "(k, v) \<in> set (record_modules f ms (rec_set cr (path_pair f mp) reason))"
    by (simp add: a)
  from Cons.IH [OF this] show ?case
    using set_rec_set [of cr "path_pair f mp" reason] by (auto simp: a)
qed

lemma analyse_files_keys:
  "analyse_files oracle files (cr0, md0) = Fulfilled (cr, md) \<Longrightarrow>
   fst ` set cr =
     fst ` set cr0 \<union>
     {path_pair f mp | f mp d ms. f \<in> set files \<and> oracle f = Fulfilled (Parsed d (Some ms)) \<and>
                                   mp \<in> fst ` set ms}"
proof (induction files arbitrary: cr0 md0)
  case Nil
  then show ?case by simp
next
  case (Cons a files)
  from Cons.prems obtain d ms where r: "oracle a = Fulfilled (Parsed d (Some ms))" and
    rest: "analyse_files oracle files
       (record_modules a (own_entries ms) cr0, rec_set md0 a d) = Fulfilled (cr, md)"
    by (rule analyse_files_ConsE)
  let ?S = "\<lambda>fs. {path_pair f mp | f mp d ms. f \<in> set fs \<and>
              oracle f = Fulfilled (Parsed d (Some ms)) \<and> mp \<in> fst ` set ms}"
  have S: "?S (a # files) = path_pair a ` fst ` set ms \<union> ?S files"
  proof (intro equalityI subsetI)
    fix x assume "x \<in> ?S (a # files)"
    then obtain f mp d' ms' where x: "x = path_pair f mp" "f \<in> set (a # files)"
      "oracle f = Fulfilled (Parsed d' (Some ms'))" "mp \<in> fst ` set ms'" by blast
    show "x \<in> path_pair a ` fst ` set ms \<union> ?S files"
    proof (cases "f = a")
      case True
      with x(3) r have "ms' = ms" by simp
      with x(1,4) True show ?thesis by blast
    next
      case False
      with x(2) have "f \<in> set files" by simp
      with x(1,3,4) show ?thesis by blast
    qed
  next
    fix x assume "x \<in> path_pair a ` fst ` set ms \<union> ?S files"
    then consider mp where "x = path_pair a mp" "mp \<in> fst ` set ms" | "x \<in> ?S files"
      by blast
    then show "x \<in> ?S (a # files)"
    proof cases
      case 1
      have "a \<in> set (a # files)" by simp
      with 1 r show ?thesis by blast
    next
      case 2
      then obtain f mp d' ms' where x: "x = path_pair f mp" "f \<in> set files"
        "oracle f = Fulfilled (Parsed d' (Some ms'))" "mp \<in> fst ` set ms'" by blast
      then have "f \<in> set (a # files)" by simp
      with x show ?thesis by blast
    qed
  qed
  from Cons.IH [OF rest] have "fst ` set cr =
      fst ` set cr0 \<union> (path_pair a ` fst ` set ms \<union> ?S files)"
    by (simp add: record_modules_keys Un_assoc)
  then have "fst ` set cr = fst ` set cr0 \<union> ?S (a # files)"
    by (simp only: S)
  then show ?case .
qed

lemma analyse_files_keys_complete:
  assumes "analyse_files oracle files (cr0, md0) = Fulfilled (cr, md)"
    and "f \<in> set files" "oracle f = Fulfilled (Parsed d (Some ms))" "mp \<in> fst ` set ms"
  shows "path_pair f mp \<in> fst ` set cr"
proof -
  from assms(2,3,4) have
    "path_pair f mp \<in> {path_pair f mp | f mp d ms. f \<in> set files \<and>
        oracle f = Fulfilled (Parsed d (Some ms)) \<and> mp \<in> fst ` set ms}"
    by blast
  then show ?thesis
    unfolding analyse_files_keys [OF assms(1)] by (rule UnI2)
qed

lemma analyse_files_sound:
  "analyse_files oracle files (cr0, md0) = Fulfilled (cr, md) \<Longrightarrow> (k, v) \<in> set cr \<Longrightarrow>
   (k, v) \<in> set cr0 \<or>
   (\<exists>f d ms mp. f \<in> set files \<and> oracle f = Fulfilled (Parsed d (Some ms)) \<and>
                 (mp, v) \<in> set ms \<and> k = path_pair f mp)"
proof (induction files arbitrary: cr0 md0)
  case Nil
  then show ?case by simp
next
  case (Cons a files)
  from Cons.prems(1) obtain d ms where r: "oracle a = Fulfilled (Parsed d (Some ms))" and
    rest: "analyse_files oracle files
       (record_modules a (own_entries ms) cr0, rec_set md0 a d) = Fulfilled (cr, md)"
    by (rule analyse_files_ConsE)
  from Cons.IH [OF rest Cons.prems(2)]
  consider "(k, v) \<in> set (record_modules a (own_entries ms) cr0)"
    | "\<exists>f d ms mp. f \<in> set files \<and> oracle f = Fulfilled (Parsed d (Some ms)) \<and>
                 (mp, v) \<in> set ms \<and> k = path_pair f mp"
    by blast
  then show ?case
  proof cases
    case 1
    from record_modules_sound [OF this] r show ?thesis by auto
  next
    case 2
    then show ?thesis by auto
  qed
qed



lemma collect_edges_calls_mono:
  "b \<in> fst ` set calls \<Longrightarrow> b \<in> fst ` set (fst (collect_edges A cr (calls, callers')))"
proof (induction cr arbitrary: calls callers')
  case Nil
  then show ?case by simp
next
  case (Cons kv cr)
  obtain k v where kv: "kv = (k, v)" by (cases kv)
  obtain m1 m2 where sp: "split_pair k = (m1, m2)" by (cases "split_pair k")
  have step: "b \<in> fst ` set (rec_set calls k' v')" for k' v'
    using Cons.prems by (auto simp: key_set_rec_set)
  show ?case
  proof (cases "m1 = Some A")
    case True
    with Cons.IH [OF step [of "prop_key m2" v], of callers'] show ?thesis
      by (simp add: kv sp)
  next
    case False
    with Cons.IH [OF Cons.prems, of callers']
      Cons.IH [OF Cons.prems, of "rec_set callers' (prop_key m1) v"]
    show ?thesis
      by (simp add: kv sp)
  qed
qed

lemma collect_edges_calls_complete:
  "(k, v) \<in> set cr \<Longrightarrow> split_pair k = (Some A, m2) \<Longrightarrow> prop_key m2 \<noteq> ''__proto__'' \<Longrightarrow>
   prop_key m2 \<in> fst ` set (fst (collect_edges A cr (calls, callers')))"
proof (induction cr arbitrary: calls callers')
  case Nil
  then show ?case by simp
next
  case (Cons kv cr)
  obtain k' v' where kv: "kv = (k', v')" by (cases kv)
  obtain m1' m2' where sp: "split_pair k' = (m1', m2')" by (cases "split_pair k'")
  show ?case
  proof (cases "(k, v) = kv")
    case True
    with Cons.prems kv sp have m: "m1' = Some A" "m2' = m2" by auto
    have "prop_key m2 \<in> fst ` set (rec_set calls (prop_key m2) v')"
      using Cons.prems(3) by (simp add: key_set_rec_set)
    from collect_edges_calls_mono [OF this, of A cr callers'] show ?thesis
      by (simp add: kv sp m)
  next
    case False
    with Cons.prems have "(k, v) \<in> set cr" by auto
    from Cons.IH [OF this Cons.prems(2,3)] show ?thesis
      by (simp add: kv sp)
  qed
qed

lemma collect_edges_calls_sound:
  "(b, v) \<in> set (fst (collect_edges A cr (calls, callers'))) \<Longrightarrow>
   (b, v) \<in> set calls \<or>
   (\<exists>k m2. (k, v) \<in> set cr \<and> split_pair k = (Some A, m2) \<and> prop_key m2 = b)"
proof (induction cr arbitrary: calls callers')
  case Nil
  then show ?case by simp
next
  case (Cons kv cr)
  obtain k' v' where kv: "kv = (k', v')" by (cases kv)
  obtain m1' m2' where sp: "split_pair k' = (m1', m2')" by (cases "split_pair k'")
  show ?case
  proof (cases "m1' = Some A")
    case True
    with Cons.prems have
      "(b, v) \<in> set (fst (collect_edges A cr (rec_set calls (prop_key m2') v', callers')))"
      by (simp add: kv sp)
    from Cons.IH [OF this] show ?thesis
      using set_rec_set [of calls "prop_key m2'" v'] True sp by (auto simp: kv)
  next
    case False
    with Cons.prems have
      "\<exists>c. (b, v) \<in> set (fst (collect_edges A cr (calls, c)))"
      by (auto simp: kv sp split: if_splits)
    then obtain c where "(b, v) \<in> set (fst (collect_edges A cr (calls, c)))" ..
    from Cons.IH [OF this] show ?thesis by (auto simp: kv)
  qed
qed

lemma collect_edges_calls_no_proto:
  "''__proto__'' \<notin> fst ` set calls \<Longrightarrow>
   ''__proto__'' \<notin> fst ` set (fst (collect_edges A cr (calls, callers')))"
proof (induction cr arbitrary: calls callers')
  case Nil
  then show ?case by simp
next
  case (Cons kv cr)
  obtain k v where kv: "kv = (k, v)" by (cases kv)
  obtain m1 m2 where sp: "split_pair k = (m1, m2)" by (cases "split_pair k")
  have step: "''__proto__'' \<notin> fst ` set (rec_set calls k' v')" for k' v'
    using Cons.prems by (auto simp: key_set_rec_set)
  show ?case
  proof (cases "m1 = Some A")
    case True
    with Cons.IH [OF step [of "prop_key m2" v], of callers'] show ?thesis
      by (simp add: kv sp)
  next
    case False
    with Cons.IH [OF Cons.prems, of callers']
      Cons.IH [OF Cons.prems, of "rec_set callers' (prop_key m1) v"]
    show ?thesis
      by (simp add: kv sp)
  qed
qed

section \<open>Failure of an analysis\<close>





section \<open>Order of the entries\<close>

text \<open>
  Claim C4, as the specification states it, fails: the entries are not sorted by path.
  A directory \<open>a\<close> listed before the file \<open>a.ts\<close> (the order a sorted listing gives)
  yields \<open>a/z.ts\<close> before \<open>a.ts\<close>, although \<open>.\<close> sorts before \<open>/\<close>.
\<close>

theorem entries_sorted_counterexample:
  "entry_paths
     (createModuleMap [(''a'', Dir [(''z.ts'', File)]), (''a.ts'', File)]
        (scripted_oracle
           [(''a/z.ts'', Fulfilled (Parsed (Some ''z'') (Some []))),
            (''a.ts'', Fulfilled (Parsed (Some ''a'') (Some [])))]))
     = [''a/z.ts'', ''a.ts''] \<and>
   \<not> sorted
     (entry_paths
        (createModuleMap [(''a'', Dir [(''z.ts'', File)]), (''a.ts'', File)]
           (scripted_oracle
              [(''a/z.ts'', Fulfilled (Parsed (Some ''z'') (Some []))),
               (''a.ts'', Fulfilled (Parsed (Some ''a'') (Some [])))])))"
  by (simp add: run_defs)

text \<open>
  Claim C4, amended. The entries of the map are emitted in enumeration order: when the
  enumerated paths are pairwise different (as the names in a directory are), the paths
  of the entries are the list \<open>getTypescriptFiles\<close> returned, in that order. No sorting
  takes place.
\<close>

theorem entries_in_enumeration_order:
  assumes "createModuleMap directory oracle = Fulfilled m"
    and "distinct (getTypescriptFiles directory)"
  shows "object_keys (modules m) = getTypescriptFiles directory"
proof -
  from assms(1) obtain cr md where
    m: "modules m = build_modules cr md (getTypescriptFiles directory) []"
    by (rule createModuleMap_FulfilledE)
  have "''__proto__'' \<notin> set (getTypescriptFiles directory)"
    using getTypescriptFiles_not_proto by blast
  with assms(2)
  have keys: "map fst (modules m) = getTypescriptFiles directory"
    using build_modules_keys [of "getTypescriptFiles directory" "[]" cr md] by (simp add: m)
  then have "fst ` set (modules m) = set (getTypescriptFiles directory)"
    by (metis set_map)
  then have "\<forall>k \<in> fst ` set (modules m). \<not> is_index k"
    using getTypescriptFiles_not_index by blast
  then have "own_entries (modules m) = modules m"
    by (rule own_entries_plain)
  with keys show ?thesis
    by (simp add: object_keys_def)
qed

theorem entries_in_enumeration_order_witness:
  "createModuleMap [(''b.ts'', File), (''a.ts'', File)]
     (scripted_oracle
        [(''a.ts'', Fulfilled (Parsed (Some ''a'') (Some []))),
         (''b.ts'', Fulfilled (Parsed (Some ''b'') (Some [])))])
   = Fulfilled \<lparr>modules =
       [(''b.ts'', \<lparr>description = Some ''b'', calling = [], callers = []\<rparr>),
        (''a.ts'', \<lparr>description = Some ''a'', calling = [], callers = []\<rparr>)]\<rparr> \<and>
   distinct (getTypescriptFiles [(''b.ts'', File), (''a.ts'', File)]) \<and>
   object_keys (modules \<lparr>modules =
       [(''b.ts'', \<lparr>description = Some ''b'', calling = [], callers = []\<rparr>),
        (''a.ts'', \<lparr>description = Some ''a'', calling = ([] :: string Record), callers = []\<rparr>)]\<rparr>)
     = getTypescriptFiles [(''b.ts'', File), (''a.ts'', File)]"
proof -
  let ?d = "[(''b.ts'', File), (''a.ts'', File)]"
  let ?o = "scripted_oracle
        [(''a.ts'', Fulfilled (Parsed (Some ''a'') (Some []))),
         (''b.ts'', Fulfilled (Parsed (Some ''b'') (Some [])))]"
  let ?m = "\<lparr>modules =
       [(''b.ts'', \<lparr>description = Some ''b'', calling = [], callers = []\<rparr>),
        (''a.ts'', \<lparr>description = Some ''a'', calling = ([] :: string Record), callers = []\<rparr>)]\<rparr>"
  have h1: "createModuleMap ?d ?o = Fulfilled ?m" by (simp add: run_defs)
  have h2: "distinct (getTypescriptFiles ?d)" by (simp add: run_defs)
  from entries_in_enumeration_order [OF h1 h2]
  have c: "object_keys (modules ?m) = getTypescriptFiles ?d" .
  from h1 h2 c show ?thesis by blast
qed

section \<open>Edges to paths that were not enumerated\<close>




section \<open>Encoding and decoding of edges\<close>

text \<open>
  Claim C10, as the specification states it, fails: the targets are the paths the
  oracle reports, and nothing keeps \<open>->\<close> out of them. With the enumerated file
  \<open>a.ts\<close>, which has no arrow, and the reported path \<open>b->c.ts\<close>, the edge is stored
  under \<open>a.ts->b->c.ts\<close> and comes back as the pair of \<open>a.ts\<close> and \<open>b\<close>.
\<close>

theorem arrow_in_target_counterexample:
  "getTypescriptFiles [(''a.ts'', File)] = [''a.ts''] \<and> \<not> has_arrow ''a.ts'' \<and>
   createModuleMap [(''a.ts'', File)]
     (scripted_oracle
        [(''a.ts'', Fulfilled (Parsed (Some ''page'') (Some [(''b->c.ts'', ''uses c'')])))])
   = Fulfilled \<lparr>modules =
       [(''a.ts'', \<lparr>description = Some ''page'',
                    calling = [(''b'', ''uses c'')], callers = []\<rparr>)]\<rparr>"
  by (simp add: run_defs)

text \<open>
  Claim C10, amended. \<open>createModuleMap\<close> stores each edge under the key
  \<open>`${source}->${target}`\<close> and recovers the pair with \<open>split("->")\<close>. When no enumerated
  path contains \<open>->\<close> and no path reported for the file \<open>A\<close> does, the edges that come
  back for \<open>A\<close> are the edges that went in: the \<open>calling\<close> mapping of \<open>A\<close> maps each
  reported path to its reason and has no other key (the key \<open>__proto__\<close> apart, which
  an object cannot take).
\<close>

theorem reported_edges_recovered:
  assumes m: "createModuleMap directory oracle = Fulfilled m"
    and A: "A \<in> set (getTypescriptFiles directory)"
    and r: "oracle A = Fulfilled (Parsed d (Some ms))"
    and files: "\<forall>f \<in> set (getTypescriptFiles directory). \<not> has_arrow f"
    and targets: "\<forall>B \<in> set (object_keys ms). \<not> has_arrow B"
    and once: "distinct (map fst ms)"
  shows "\<exists>entry. rec_get (modules m) A = Some entry \<and>
           (\<forall>B. rec_get (calling entry) B =
                  (if B = ''__proto__'' then None else rec_get ms B))"
proof -
  let ?files = "getTypescriptFiles directory"
  from m obtain cr md where
    an: "analyse_files oracle ?files ([], []) = Fulfilled (cr, md)" and
    mm: "modules m = build_modules cr md ?files []"
    by (rule createModuleMap_FulfilledE)
  let ?calls = "fst (collect_edges A (own_entries cr) ([], []))"
  have np: "A \<noteq> ''__proto__''"
    using A by (rule getTypescriptFiles_not_proto)
  have entry: "rec_get (modules m) A = Some (module_entry cr md A)"
    using A np by (simp add: mm rec_get_build_modules)
  have sound: "(B, v) \<in> set ms" if "(B, v) \<in> set ?calls" for B v
  proof -
    from collect_edges_calls_sound [OF that]
    obtain k m2 where k: "(k, v) \<in> set cr" "split_pair k = (Some A, m2)" "prop_key m2 = B"
      by auto
    from analyse_files_sound [OF an k(1)]
    obtain f d' ms' mp where f: "f \<in> set ?files" "oracle f = Fulfilled (Parsed d' (Some ms'))"
      "(mp, v) \<in> set ms'" "k = path_pair f mp"
      by auto
    from f(1) files have nf: "\<not> has_arrow f" by blast
    from split_pair_source [OF nf, of mp] k(2) f(4) have "f = A" by simp
    with f(2) r have "ms' = ms" by simp
    with f(3) have in_ms: "(mp, v) \<in> set ms" by simp
    then have "mp \<in> set (object_keys ms)" by force
    with targets have "\<not> has_arrow mp" by blast
    from split_pair_path_pair [OF nf this] k(2) f(4) have "m2 = Some mp" by simp
    with k(3) have "B = mp" by (simp add: prop_key_def)
    with in_ms show ?thesis by simp
  qed
  have complete: "B \<in> fst ` set ?calls" if "B \<in> fst ` set ms" "B \<noteq> ''__proto__''" for B
  proof -
    from an A r that(1)
    have "path_pair A B \<in> fst ` set cr" by (rule analyse_files_keys_complete)
    then obtain v where kv: "(path_pair A B, v) \<in> set (own_entries cr)" by auto
    from A files have "\<not> has_arrow A" by blast
    moreover from that(1) targets have "\<not> has_arrow B" by auto
    ultimately have sp: "split_pair (path_pair A B) = (Some A, Some B)"
      by (rule split_pair_path_pair)
    from collect_edges_calls_complete [OF kv sp, of "[]" "[]"] that(2)
    show ?thesis by (simp add: prop_key_def)
  qed
  have no_proto: "''__proto__'' \<notin> fst ` set ?calls"
    by (rule collect_edges_calls_no_proto) simp
  have "rec_get ?calls B = (if B = ''__proto__'' then None else rec_get ms B)" for B
  proof (cases "B = ''__proto__''")
    case True
    with no_proto show ?thesis
      by (simp add: rec_get_def map_of_eq_None_iff)
  next
    case False
    show ?thesis
    proof (cases "rec_get ms B")
      case None
      then have nb: "B \<notin> fst ` set ms"
        by (simp add: rec_get_def map_of_eq_None_iff)
      have "rec_get ?calls B = None"
      proof (rule ccontr)
        assume "rec_get ?calls B \<noteq> None"
        then obtain v where "map_of ?calls B = Some v"
          by (auto simp: rec_get_def)
        then have "(B, v) \<in> set ?calls" by (rule map_of_SomeD)
        from sound [OF this] nb show False by force
      qed
      with None False show ?thesis by simp
    next
      case (Some reason)
      then have in_ms: "(B, reason) \<in> set ms"
        by (auto simp: rec_get_def dest: map_of_SomeD)
      then have "B \<in> fst ` set ms" by force
      from complete [OF this False] obtain v where "map_of ?calls B = Some v"
        by (metis map_of_eq_None_iff not_Some_eq)
      then have v: "rec_get ?calls B = Some v" "(B, v) \<in> set ?calls"
        by (auto simp: rec_get_def dest: map_of_SomeD)
      from sound [OF v(2)] have "map_of ms B = Some v"
        using once by (simp add: map_of_is_SomeI)
      with Some have "v = reason" by (simp add: rec_get_def)
      with v(1) Some False show ?thesis by simp
    qed
  qed
  then have "\<forall>B. rec_get (calling (module_entry cr md A)) B =
               (if B = ''__proto__'' then None else rec_get ms B)"
    by (simp add: module_entry_sel)
  with entry show ?thesis by blast
qed

theorem reported_edges_recovered_witness:
  "\<not> has_arrow ''a.ts'' \<and> \<not> has_arrow ''b.ts'' \<and>
   createModuleMap [(''a.ts'', File), (''b.ts'', File)]
     (scripted_oracle
        [(''a.ts'', Fulfilled (Parsed (Some ''entry point'') (Some [(''b.ts'', ''uses helper'')]))),
         (''b.ts'', Fulfilled (Parsed (Some ''helper'') (Some [])))])
   = Fulfilled \<lparr>modules =
       [(''a.ts'', \<lparr>description = Some ''entry point'',
                    calling = [(''b.ts'', ''uses helper'')], callers = []\<rparr>),
        (''b.ts'', \<lparr>description = Some ''helper'', calling = [],
                    callers = [(''a.ts'', ''uses helper'')]\<rparr>)]\<rparr> \<and>
   (\<exists>entry. rec_get (modules \<lparr>modules =
       [(''a.ts'', \<lparr>description = Some ''entry point'',
                    calling = [(''b.ts'', ''uses helper'')], callers = []\<rparr>),
        (''b.ts'', \<lparr>description = Some ''helper'', calling = [],
                    callers = [(''a.ts'', ''uses helper'')]\<rparr>)]\<rparr>) ''a.ts'' = Some entry \<and>
      rec_get (calling entry) ''b.ts'' = Some ''uses helper'' \<and>
      rec_get (calling entry) ''c.ts'' = None)"
proof -
  let ?d = "[(''a.ts'', File), (''b.ts'', File)]"
  let ?ms = "[(''b.ts'', ''uses helper'')]"
  let ?o = "scripted_oracle
        [(''a.ts'', Fulfilled (Parsed (Some ''entry point'') (Some ?ms))),
         (''b.ts'', Fulfilled (Parsed (Some ''helper'') (Some [])))]"
  let ?m = "\<lparr>modules =
       [(''a.ts'', \<lparr>description = Some ''entry point'',
                    calling = [(''b.ts'', ''uses helper'')], callers = []\<rparr>),
        (''b.ts'', \<lparr>description = Some ''helper'', calling = [],
                    callers = [(''a.ts'', ''uses helper'')]\<rparr>)]\<rparr>"
  have h1: "createModuleMap ?d ?o = Fulfilled ?m" by (simp add: run_defs)
  have h2: "''a.ts'' \<in> set (getTypescriptFiles ?d)" by (simp add: run_defs)
  have h3: "?o ''a.ts'' = Fulfilled (Parsed (Some ''entry point'') (Some ?ms))"
    by (simp add: run_defs)
  have h4: "\<forall>f \<in> set (getTypescriptFiles ?d). \<not> has_arrow f" by (simp add: run_defs)
  have h5: "\<forall>B \<in> set (object_keys ?ms). \<not> has_arrow B" by simp
  have h6: "distinct (map fst ?ms)" by simp
  from reported_edges_recovered [OF h1 h2 h3 h4 h5 h6]
  obtain entry where e: "rec_get (modules ?m) ''a.ts'' = Some entry"
    "\<forall>B. rec_get (calling entry) B = (if B = ''__proto__'' then None else rec_get ?ms B)"
    by blast
  from e(2) have "rec_get (calling entry) ''b.ts'' = Some ''uses helper''"
    "rec_get (calling entry) ''c.ts'' = None"
    by (simp_all add: rec_get_def)
  with e(1) have c: "\<exists>entry. rec_get (modules ?m) ''a.ts'' = Some entry \<and>
      rec_get (calling entry) ''b.ts'' = Some ''uses helper'' \<and>
      rec_get (calling entry) ''c.ts'' = None" by blast
  have a1: "\<not> has_arrow ''a.ts''" and a2: "\<not> has_arrow ''b.ts''" by simp_all
  from a1 a2 h1 c show ?thesis by blast
qed

section \<open>Forward and reverse views\<close>

lemma collect_edges_symmetric:
  assumes "A \<noteq> B" "A \<noteq> ''__proto__''" "B \<noteq> ''__proto__''"
    "A \<noteq> ''undefined''" "B \<noteq> ''undefined''"
  shows "rec_get callsA B = rec_get callersB A \<Longrightarrow>
     rec_get (fst (collect_edges A cr (callsA, callersA))) B =
     rec_get (snd (collect_edges B cr (callsB, callersB))) A"
proof (induction cr arbitrary: callsA callersA callsB callersB)
  case Nil
  then show ?case by simp
next
  case (Cons kv cr)
  obtain k v where kv: "kv = (k, v)" by (cases kv)
  obtain m1 m2 where sp: "split_pair k = (m1, m2)" by (cases "split_pair k")
  show ?case
    unfolding kv
    using assms Cons.prems
    by (cases m1; cases m2)
       (auto simp: sp rec_get_rec_set prop_key_def intro!: Cons.IH)
qed

text \<open>For two different enumerated files the two views agree: what \<open>A\<close> records as
  calling \<open>B\<close> is what \<open>B\<close> records as called by \<open>A\<close>.\<close>

lemma calling_callers_symmetric_distinct:
  assumes "createModuleMap directory oracle = Fulfilled m"
    and "A \<in> set (getTypescriptFiles directory)" "B \<in> set (getTypescriptFiles directory)"
    and "A \<noteq> B"
  shows "\<exists>ea eb. rec_get (modules m) A = Some ea \<and> rec_get (modules m) B = Some eb \<and>
           rec_get (calling ea) B = rec_get (callers eb) A"
proof -
  from assms(1) obtain cr md where
    m: "modules m = build_modules cr md (getTypescriptFiles directory) []"
    by (rule createModuleMap_FulfilledE)
  have ne: "A \<noteq> ''__proto__''" "B \<noteq> ''__proto__''" "A \<noteq> ''undefined''" "B \<noteq> ''undefined''"
    using assms(2,3) getTypescriptFiles_suffix not_proto_of_suffix undefined_of_suffix
    by blast+
  have "rec_get (fst (collect_edges A (own_entries cr) ([], []))) B =
        rec_get (snd (collect_edges B (own_entries cr) ([], []))) A"
    by (rule collect_edges_symmetric [OF assms(4) ne]) (simp add: rec_get_def)
  then have "rec_get (calling (module_entry cr md A)) B =
             rec_get (callers (module_entry cr md B)) A"
    by (simp add: module_entry_sel)
  with assms(2,3) ne show ?thesis
    by (simp add: m rec_get_build_modules)
qed

text \<open>
  Claim C3 at a file that imports itself. The loop tests \<open>module1 === file\<close> first and
  \<open>module2 === file\<close> only in the \<open>else\<close> branch, so the edge from \<open>a.ts\<close> to \<open>a.ts\<close> is
  stored in \<open>calling\<close> and never in \<open>callers\<close>: the two views of this pair differ.
\<close>

theorem self_import_views_differ:
  "createModuleMap [(''a.ts'', File)]
     (scripted_oracle
        [(''a.ts'', Fulfilled (Parsed (Some ''d'') (Some [(''a.ts'', ''imports itself'')])))])
   = Fulfilled \<lparr>modules =
       [(''a.ts'', \<lparr>description = Some ''d'',
                    calling = [(''a.ts'', ''imports itself'')], callers = []\<rparr>)]\<rparr>"
  by (simp add: run_defs)

section \<open>Which files are enumerated\<close>

lemma file_in_Nil [simp]: "\<not> file_in [] ds n"
  by (cases ds) auto

lemma file_in_Cons:
  "file_in (e # es) ds n \<longleftrightarrow> file_in [e] ds n \<or> file_in es ds n"
  by (cases ds) auto

lemma file_in_single:
  "file_in [(name, nd)] ds n \<longleftrightarrow>
     (case nd of File \<Rightarrow> ds = [] \<and> n = name
      | Dir sub \<Rightarrow> (\<exists>ds'. ds = name # ds' \<and> file_in sub ds' n)
      | Link target \<Rightarrow> False
      | Other \<Rightarrow> False)"
  by (cases ds; cases nd) auto

lemma traverseDirectory_iff:
  "p \<in> set (traverseDirectory inc rel es) \<longleftrightarrow>
     (\<exists>ds n. file_in es ds n \<and> (\<forall>d \<in> set ds. entered d) \<and> inc n \<and> p = path_from rel ds n)"
proof (induction inc rel es arbitrary: p rule: traverseDirectory.induct)
  case (1 inc rel)
  then show ?case by simp
next
  case (2 inc rel name sub entries)
  show ?case
  proof (cases "entered name")
    case True
    have "p \<in> set (traverseDirectory inc rel ((name, Dir sub) # entries)) \<longleftrightarrow>
          p \<in> set (traverseDirectory inc (relativePath rel name) sub) \<or>
          p \<in> set (traverseDirectory inc rel entries)"
      using True by simp
    also have "\<dots> \<longleftrightarrow>
       (\<exists>ds n. file_in sub ds n \<and> (\<forall>d \<in> set ds. entered d) \<and> inc n \<and>
                p = path_from (relativePath rel name) ds n) \<or>
       (\<exists>ds n. file_in entries ds n \<and> (\<forall>d \<in> set ds. entered d) \<and> inc n \<and>
                p = path_from rel ds n)"
      using 2 True by simp
    also have "\<dots> \<longleftrightarrow>
       (\<exists>ds n. file_in ((name, Dir sub) # entries) ds n \<and> (\<forall>d \<in> set ds. entered d) \<and>
                inc n \<and> p = path_from rel ds n)"
      (is "?L \<longleftrightarrow> ?R")
    proof
      assume ?L
      then show ?R
      proof
        assume "\<exists>ds n. file_in sub ds n \<and> (\<forall>d \<in> set ds. entered d) \<and> inc n \<and>
                p = path_from (relativePath rel name) ds n"
        then obtain ds n where h: "file_in sub ds n" "\<forall>d \<in> set ds. entered d" "inc n"
          "p = path_from (relativePath rel name) ds n" by blast
        have "file_in ((name, Dir sub) # entries) (name # ds) n" using h(1) by auto
        moreover have "\<forall>d \<in> set (name # ds). entered d" using h(2) True by simp
        moreover have "p = path_from rel (name # ds) n" using h(4) by (simp add: path_from_def)
        ultimately show ?R using h(3) by blast
      next
        assume "\<exists>ds n. file_in entries ds n \<and> (\<forall>d \<in> set ds. entered d) \<and> inc n \<and>
                p = path_from rel ds n"
        then show ?R using file_in_Cons by blast
      qed
    next
      assume ?R
      then obtain ds n where h: "file_in ((name, Dir sub) # entries) ds n"
        "\<forall>d \<in> set ds. entered d" "inc n" "p = path_from rel ds n" by blast
      from h(1) consider "file_in [(name, Dir sub)] ds n" | "file_in entries ds n"
        using file_in_Cons by blast
      then show ?L
      proof cases
        case 1
        then obtain ds' where ds': "ds = name # ds'" "file_in sub ds' n"
          by (auto simp: file_in_single)
        with h have "\<forall>d \<in> set ds'. entered d" "p = path_from (relativePath rel name) ds' n"
          by (simp_all add: path_from_def)
        with ds' h(3) show ?thesis by blast
      next
        case 2
        with h show ?thesis by blast
      qed
    qed
    finally show ?thesis .
  next
    case False
    have "p \<in> set (traverseDirectory inc rel ((name, Dir sub) # entries)) \<longleftrightarrow>
          p \<in> set (traverseDirectory inc rel entries)"
      using False by simp
    also have "\<dots> \<longleftrightarrow>
       (\<exists>ds n. file_in entries ds n \<and> (\<forall>d \<in> set ds. entered d) \<and> inc n \<and>
                p = path_from rel ds n)"
      using 2 False by simp
    also have "\<dots> \<longleftrightarrow>
       (\<exists>ds n. file_in ((name, Dir sub) # entries) ds n \<and> (\<forall>d \<in> set ds. entered d) \<and>
                inc n \<and> p = path_from rel ds n)"
      (is "?L \<longleftrightarrow> ?R")
    proof
      assume ?L
      then show ?R using file_in_Cons by blast
    next
      assume ?R
      then obtain ds n where h: "file_in ((name, Dir sub) # entries) ds n"
        "\<forall>d \<in> set ds. entered d" "inc n" "p = path_from rel ds n" by blast
      from h(1) consider "file_in [(name, Dir sub)] ds n" | "file_in entries ds n"
        using file_in_Cons by blast
      then show ?L
      proof cases
        case 1
        then obtain ds' where "ds = name # ds'" by (auto simp: file_in_single)
        with h(2) False show ?thesis by simp
      next
        case 2
        with h show ?thesis by blast
      qed
    qed
    finally show ?thesis .
  qed
next
  case (3 inc rel name entries)
  have single: "\<And>ds n. file_in ((name, File) # entries) ds n \<longleftrightarrow>
                   (ds = [] \<and> n = name) \<or> file_in entries ds n"
    by (subst file_in_Cons) (simp add: file_in_single)
  have here: "path_from rel [] name = relativePath rel name"
    by (simp add: path_from_def)
  have "p \<in> set (traverseDirectory inc rel ((name, File) # entries)) \<longleftrightarrow>
        (inc name \<and> p = relativePath rel name) \<or>
        p \<in> set (traverseDirectory inc rel entries)"
    by auto
  also have "\<dots> \<longleftrightarrow>
        (inc name \<and> p = relativePath rel name) \<or>
        (\<exists>ds n. file_in entries ds n \<and> (\<forall>d \<in> set ds. entered d) \<and> inc n \<and>
                p = path_from rel ds n)"
    using 3 by (cases "inc name") simp_all
  also have "\<dots> \<longleftrightarrow>
        (\<exists>ds n. file_in ((name, File) # entries) ds n \<and> (\<forall>d \<in> set ds. entered d) \<and>
                inc n \<and> p = path_from rel ds n)"
    (is "?L \<longleftrightarrow> ?R")
  proof
    assume ?L
    then show ?R
    proof
      assume "inc name \<and> p = relativePath rel name"
      then have "file_in ((name, File) # entries) [] name \<and> (\<forall>d \<in> set []. entered d) \<and>
                 inc name \<and> p = path_from rel [] name"
        by (simp add: here)
      then show ?R by blast
    next
      assume "\<exists>ds n. file_in entries ds n \<and> (\<forall>d \<in> set ds. entered d) \<and> inc n \<and>
                p = path_from rel ds n"
      then show ?R using single by blast
    qed
  next
    assume ?R
    then obtain ds n where h: "file_in ((name, File) # entries) ds n"
      "\<forall>d \<in> set ds. entered d" "inc n" "p = path_from rel ds n" by blast
    from h(1) consider "ds = []" "n = name" | "file_in entries ds n"
      using single by blast
    then show ?L
    proof cases
      case 1
      with h(3,4) show ?thesis by (simp add: here)
    next
      case 2
      with h show ?thesis by blast
    qed
  qed
  finally show ?case .
next
  case (4 inc rel name target entries)
  have "\<And>ds n. file_in ((name, Link target) # entries) ds n \<longleftrightarrow> file_in entries ds n"
    by (subst file_in_Cons) (simp add: file_in_single)
  with 4 show ?case by simp
next
  case (5 inc rel name entries)
  have "\<And>ds n. file_in ((name, Other) # entries) ds n \<longleftrightarrow> file_in entries ds n"
    by (subst file_in_Cons) (simp add: file_in_single)
  with 5 show ?case by simp
qed


text \<open>
  Claim C7, as the specification states it, fails for the extension \<open>.tsx\<close>: a test file
  \<open>App.test.tsx\<close> is returned, by the later and by the earlier \<open>getTypescriptFiles\<close>.
\<close>

theorem tsx_test_file_counterexample:
  "getTypescriptFiles [(''App.test.tsx'', File)] = [''App.test.tsx''] \<and>
   getTypescriptFiles_v1 [(''App.test.tsx'', File)] = [''App.test.tsx''] \<and>
   spec_excluded ''App.test.tsx''"
  by (simp add: getTypescriptFiles_def getTypescriptFiles_v1_def included_def included_v1_def
      spec_excluded_def endsWith_def relativePath_def)

text \<open>
  Claim C7, amended. \<open>getTypescriptFiles\<close> returns exactly the paths of the regular files
  of the tree whose name ends in \<open>.ts\<close> or \<open>.tsx\<close> but not in \<open>.d.ts\<close>, \<open>.test.ts\<close> or
  \<open>.config.ts\<close>, and whose enclosing directories, at every depth, have a name that does
  not begin with a dot and is not \<open>node_modules\<close>. The earlier version of the function
  is the same without the \<open>.config.ts\<close> test.
\<close>

theorem getTypescriptFiles_exact:
  "(p \<in> set (getTypescriptFiles directory) \<longleftrightarrow>
      (\<exists>ds n. file_in directory ds n \<and> (\<forall>d \<in> set ds. entered d) \<and> included n \<and>
               p = path_from [] ds n)) \<and>
   (p \<in> set (getTypescriptFiles_v1 directory) \<longleftrightarrow>
      (\<exists>ds n. file_in directory ds n \<and> (\<forall>d \<in> set ds. entered d) \<and> included_v1 n \<and>
               p = path_from [] ds n))"
  by (simp add: getTypescriptFiles_def getTypescriptFiles_v1_def traverseDirectory_iff)

theorem getTypescriptFiles_exact_witness:
  "''src/App.tsx'' \<in> set (getTypescriptFiles
     [(''src'', Dir [(''App.tsx'', File), (''App.test.ts'', File)]),
      (''node_modules'', Dir [(''lib.ts'', File)])])"
proof -
  let ?d = "[(''src'', Dir [(''App.tsx'', File), (''App.test.ts'', File)]),
      (''node_modules'', Dir [(''lib.ts'', File)])]"
  have "file_in ?d [''src''] ''App.tsx'' \<and> (\<forall>d \<in> set [''src'']. entered d) \<and>
        included ''App.tsx'' \<and> ''src/App.tsx'' = path_from [] [''src''] ''App.tsx''"
    by (simp add: entered_def included_def startsWith_def endsWith_def path_from_def
        relativePath_def)
  then have "\<exists>ds n. file_in ?d ds n \<and> (\<forall>d \<in> set ds. entered d) \<and> included n \<and>
               ''src/App.tsx'' = path_from [] ds n" by blast
  with getTypescriptFiles_exact [of "''src/App.tsx''" ?d] show ?thesis by blast
qed

section \<open>Resolution of import paths\<close>

lemma find_first_index:
  "i < length xs \<Longrightarrow> P (xs ! i) \<Longrightarrow> \<forall>j<i. \<not> P (xs ! j) \<Longrightarrow> find P xs = Some (xs ! i)"
  by (auto simp: find_Some_iff)

text \<open>
  Claim C5, as the specification states it, fails: the probes ask the disk, not the
  enumerated file set. When \<open>src/utils\<close> holds a file \<open>read\<close> beside \<open>read.ts\<close>, the
  import of \<open>../utils/read\<close> from \<open>src/animals/cats.ts\<close> resolves to \<open>src/utils/read\<close>,
  which is not an enumerated file, although the candidate \<open>src/utils/read.ts\<close> is one.
\<close>

theorem as_is_match_counterexample:
  "resolveImportPath
     (disk_of ''/proj''
        [(''src'', Dir [(''animals'', Dir [(''cats.ts'', File)]),
                        (''utils'', Dir [(''read'', File), (''read.ts'', File)])])])
     ''../utils/read'' ''src/animals/cats.ts'' ''/proj'' = ''src/utils/read'' \<and>
   resolveImportPath_spec
     (getTypescriptFiles
        [(''src'', Dir [(''animals'', Dir [(''cats.ts'', File)]),
                        (''utils'', Dir [(''read'', File), (''read.ts'', File)])])])
     ''../utils/read'' ''src/animals/cats.ts'' = Some ''src/utils/read.ts''"
  by (simp add: path_defs getTypescriptFiles_def entered_def included_def endsWith_def relativePath_def)

text \<open>
  Claim C5, amended. A specifier that begins with a dot is resolved against the
  directory of the importing file, and the candidates are probed on the disk in the
  order: the path as it is, with \<open>.ts\<close>, with \<open>.tsx\<close>, \<open>index.ts\<close> inside it, \<open>index.tsx\<close>
  inside it. A candidate that is a regular file on the disk is returned when nothing
  exists on the disk at any candidate before it. In particular \<open>../utils/read\<close>
  imported from \<open>src/animals/cats.ts\<close> resolves to \<open>src/utils/read.ts\<close> when that file
  exists and nothing exists at \<open>src/utils/read\<close>.
\<close>

theorem resolve_first_file:
  assumes "startsWith importPath ''.''"
    and "resolvedPath = normalize (join [dirname importingFilePath, importPath])"
    and "candidates =
           [resolvedPath, resolvedPath @ ''.ts'', resolvedPath @ ''.tsx'',
            join [resolvedPath, ''index.ts''], join [resolvedPath, ''index.tsx'']]"
    and "i < length candidates"
    and "d (join [baseDirectory, candidates ! i]) = Some File"
    and "\<forall>j<i. d (join [baseDirectory, candidates ! j]) = None"
  shows "resolveImportPath d importPath importingFilePath baseDirectory = candidates ! i"
proof -
  have c: "candidates = possiblePaths resolvedPath"
    by (simp add: assms(3) possiblePaths_def)
  have "find (\<lambda>possiblePath. existsSync d (join [baseDirectory, possiblePath])) candidates
          = Some (candidates ! i)"
    by (rule find_first_index) (use assms(4,5,6) in \<open>simp_all add: existsSync_def\<close>)
  then show ?thesis
    using assms(1) by (simp add: resolveImportPath_def c [symmetric] assms(2) [symmetric])
qed

theorem resolve_first_file_witness:
  "resolveImportPath
     (disk_of ''/proj''
        [(''src'', Dir [(''animals'', Dir [(''cats.ts'', File)]),
                        (''utils'', Dir [(''read.ts'', File)])])])
     ''../utils/read'' ''src/animals/cats.ts'' ''/proj'' = ''src/utils/read.ts''"
proof -
  let ?d = "disk_of ''/proj''
        [(''src'', Dir [(''animals'', Dir [(''cats.ts'', File)]),
                        (''utils'', Dir [(''read.ts'', File)])])]"
  let ?c = "[''src/utils/read'', ''src/utils/read'' @ ''.ts'', ''src/utils/read'' @ ''.tsx'',
            join [''src/utils/read'', ''index.ts''], join [''src/utils/read'', ''index.tsx'']]"
  have h1: "startsWith ''../utils/read'' ''.''" by (simp add: startsWith_def)
  have h2: "''src/utils/read'' = normalize (join [dirname ''src/animals/cats.ts'', ''../utils/read''])"
    by (simp add: path_defs)
  have h4: "1 < length ?c" by simp
  have h5: "?d (join [''/proj'', ?c ! 1]) = Some File" by (simp add: path_defs)
  have h6: "\<forall>j<1. ?d (join [''/proj'', ?c ! j]) = None" by (simp add: path_defs)
  from resolve_first_file [OF h1 h2 refl h4 h5 h6]
  show ?thesis by simp
qed

text \<open>When nothing exists on the disk at any of the five candidates, the normalized
  path with \<open>.ts\<close> appended is returned.\<close>

lemma resolve_guess:
  assumes "startsWith importPath ''.''"
    and "\<forall>c \<in> set (possiblePaths (normalize (join [dirname importingFilePath, importPath]))).
           \<not> existsSync d (join [baseDirectory, c])"
  shows "resolveImportPath d importPath importingFilePath baseDirectory =
           normalize (join [dirname importingFilePath, importPath]) @ ''.ts''"
proof -
  from assms(2) have
    "find (\<lambda>possiblePath. existsSync d (join [baseDirectory, possiblePath]))
       (possiblePaths (normalize (join [dirname importingFilePath, importPath]))) = None"
    by (simp add: find_None_iff)
  with assms(1) show ?thesis
    by (simp add: resolveImportPath_def)
qed

text \<open>
  Claim C6 at a directory. The file \<open>src/file.ts\<close> imports \<open>./component\<close>, and
  \<open>src/component\<close> is a directory with no index file; there is no \<open>component.ts\<close> and no
  \<open>component.tsx\<close>. No candidate file exists: the five probes find the directory and
  four times nothing. The first probe succeeds all the same, because
  \<open>fs.existsSync\<close> is true for a directory, and the path of the directory is returned
  instead of \<open>src/component.ts\<close>.
\<close>

theorem directory_returned_for_missing_file:
  "normalize (join [dirname ''src/file.ts'', ''./component'']) = ''src/component'' \<and>
   probes
     (disk_of ''/test/dir''
        [(''src'', Dir [(''file.ts'', File), (''component'', Dir [(''styles.css'', File)])])])
     ''/test/dir'' ''src/component''
     = [Some (Dir [(''styles.css'', File)]), None, None, None, None] \<and>
   resolveImportPath
     (disk_of ''/test/dir''
        [(''src'', Dir [(''file.ts'', File), (''component'', Dir [(''styles.css'', File)])])])
     ''./component'' ''src/file.ts'' ''/test/dir'' = ''src/component''"
  by (simp add: path_defs)

section \<open>Reported paths and the normalizer\<close>

text \<open>
  Claim C2, as the specification states it, fails: \<open>createModuleMap\<close> never calls
  \<open>resolveImportPath\<close>. An oracle that reports \<open>./b\<close> for \<open>src/a.ts\<close> leaves the edge
  under the target \<open>./b\<close>, while the normalizer maps that path to \<open>src/b.ts\<close>; the
  entry of \<open>src/b.ts\<close> gets no caller.
\<close>

theorem unnormalized_target_counterexample:
  "createModuleMap [(''src'', Dir [(''a.ts'', File), (''b.ts'', File)])]
     (scripted_oracle
        [(''src/a.ts'', Fulfilled (Parsed (Some ''entry point'') (Some [(''./b'', ''uses helper'')]))),
         (''src/b.ts'', Fulfilled (Parsed (Some ''helper'') (Some [])))])
   = Fulfilled \<lparr>modules =
       [(''src/a.ts'', \<lparr>description = Some ''entry point'',
                        calling = [(''./b'', ''uses helper'')], callers = []\<rparr>),
        (''src/b.ts'', \<lparr>description = Some ''helper'', calling = [], callers = []\<rparr>)]\<rparr> \<and>
   resolveImportPath (disk_of ''/proj'' [(''src'', Dir [(''a.ts'', File), (''b.ts'', File)])])
     ''./b'' ''src/a.ts'' ''/proj'' = ''src/b.ts''"
  by (simp add: run_defs path_defs)

text \<open>
  Claim C2, amended. Every path that is a key of the \<open>modules\<close> mapping of a reply is
  recorded as it was reported: the keys of \<open>callingReasons\<close> after the first loop are
  exactly the strings \<open>`${file}->${modulePath}`\<close> for the analysed files and the paths
  reported for them. No normalization is applied; the prompt asks the oracle for
  paths relative to the root.
\<close>

theorem reported_paths_recorded_verbatim:
  assumes "analyse_files oracle files ([], []) = Fulfilled (callingReasons, moduleDescriptions)"
  shows "set (object_keys callingReasons) =
     {path_pair file modulePath | file modulePath d ms.
        file \<in> set files \<and> oracle file = Fulfilled (Parsed d (Some ms)) \<and>
        modulePath \<in> set (object_keys ms)}"
  using analyse_files_keys [OF assms] by simp

theorem reported_paths_recorded_verbatim_witness:
  "analyse_files
     (scripted_oracle
        [(''src/a.ts'', Fulfilled (Parsed (Some ''entry point'') (Some [(''./b'', ''uses helper'')])))])
     [''src/a.ts''] ([], [])
     = Fulfilled ([(''src/a.ts->./b'', ''uses helper'')], [(''src/a.ts'', Some ''entry point'')]) \<and>
   path_pair ''src/a.ts'' ''./b'' \<in> set (object_keys [(''src/a.ts->./b'', ''uses helper'')])"
proof -
  let ?ms = "[(''./b'', ''uses helper'')]"
  let ?o = "scripted_oracle [(''src/a.ts'', Fulfilled (Parsed (Some ''entry point'') (Some ?ms)))]"
  have h1: "analyse_files ?o [''src/a.ts''] ([], [])
     = Fulfilled ([(''src/a.ts->./b'', ''uses helper'')], [(''src/a.ts'', Some ''entry point'')])"
    by (simp add: run_defs)
  have o: "?o ''src/a.ts'' = Fulfilled (Parsed (Some ''entry point'') (Some ?ms))"
    by (simp add: scripted_oracle_def)
  have k: "''./b'' \<in> set (object_keys ?ms)" by simp
  have f: "''src/a.ts'' \<in> set [''src/a.ts'']" by simp
  from f o k have "path_pair ''src/a.ts'' ''./b'' \<in>
     {path_pair file modulePath | file modulePath d ms.
        file \<in> set [''src/a.ts''] \<and> ?o file = Fulfilled (Parsed d (Some ms)) \<and>
        modulePath \<in> set (object_keys ms)}"
    by blast
  with reported_paths_recorded_verbatim [OF h1]
  have "path_pair ''src/a.ts'' ''./b'' \<in> set (object_keys [(''src/a.ts->./b'', ''uses helper'')])"
    by blast
  with h1 show ?thesis by blast
qed

section \<open>The follow-up call after tool use\<close>

text \<open>Without a client (no API key in the environment) every call rejects at once.\<close>

lemma callOpenAI_no_client: "callOpenAI n None conversation ts forceJSON = Rejected ApiKeyMissing"
  by (cases n) (simp_all add: call_round_def)

lemma request_unforced: "response_format (request conversation ts None) = None"
  by (simp add: request_def)

lemma call_round_unforced:
  "\<forall>r. response_format r = None \<longrightarrow> create' r = create r \<Longrightarrow>
   call_round (Some create') conversation ts None = call_round (Some create) conversation ts None"
  by (simp add: call_round_def request_unforced)

lemma callOpenAI_unforced:
  "\<forall>r. response_format r = None \<longrightarrow> create' r = create r \<Longrightarrow>
   callOpenAI n (Some create') conversation ts None = callOpenAI n (Some create) conversation ts None"
proof (induction n arbitrary: conversation)
  case 0
  from call_round_unforced [OF 0, of conversation ts] show ?case by simp
next
  case (Suc n)
  from call_round_unforced [OF Suc.prems, of conversation ts] Suc.IH [OF Suc.prems]
  show ?case by (simp split: round.splits)
qed

text \<open>
  Claim C9. When \<open>callOpenAI\<close> is called with \<open>forceJSON\<close> true and the reply carries tool
  calls, the follow-up call is made without \<open>forceJSON\<close>: what the first call returns is
  what a call without \<open>forceJSON\<close> on the conversation with the tool results returns,
  and that result is the same for any client that agrees with the given one on the
  requests that do not force JSON. So no request after the first asks for a JSON
  object, and the answer that is accepted need not be one.
\<close>

theorem follow_up_not_forced:
  assumes "create (request conversation ts (Some True)) = Fulfilled assistantMessage"
    and "tool_calls assistantMessage \<noteq> []"
    and "messages conversation \<noteq> []"
    and "run_tool_calls (toolMap ts) (tool_calls assistantMessage)
           \<lparr>messages = messages conversation @
              [\<lparr>role = Assistant,
                content = (case am_content assistantMessage of None \<Rightarrow> [] | Some c \<Rightarrow> c),
                msg_name = None\<rparr>]\<rparr> = Fulfilled withResults"
    and "\<forall>r. response_format r = None \<longrightarrow> create' r = create r"
  shows "callOpenAI (Suc n) (Some create) conversation ts (Some True) =
         callOpenAI n (Some create') withResults ts None"
proof -
  have "call_round (Some create) conversation ts (Some True) = FollowUp withResults"
    using assms(1-4) by (simp add: call_round_def Let_def)
  then have "callOpenAI (Suc n) (Some create) conversation ts (Some True) =
             callOpenAI n (Some create) withResults ts None"
    by simp
  with callOpenAI_unforced [OF assms(5), of n withResults ts] show ?thesis by simp
qed

theorem follow_up_not_forced_witness:
  "callOpenAI (Suc 0) (Some prose_client) sample_conversation [import_lines_tool] (Some True) =
     Fulfilled (''It imports b.'',
       \<lparr>messages =
          [\<lparr>role = User, content = ''Describe a.ts'', msg_name = None\<rparr>,
           \<lparr>role = Assistant, content = [], msg_name = None\<rparr>,
           \<lparr>role = Tool, content = ''<import_line>import b from ./b</import_line>'',
             msg_name = Some ''get_import_lines''\<rparr>,
           \<lparr>role = Assistant, content = ''It imports b.'', msg_name = None\<rparr>]\<rparr>)"
proof -
  let ?w = "\<lparr>messages =
          [\<lparr>role = User, content = ''Describe a.ts'', msg_name = None\<rparr>,
           \<lparr>role = Assistant, content = [], msg_name = None\<rparr>,
           \<lparr>role = Tool, content = ''<import_line>import b from ./b</import_line>'',
             msg_name = Some ''get_import_lines''\<rparr>]\<rparr>"
  have h1: "prose_client (request sample_conversation [import_lines_tool] (Some True)) =
              Fulfilled tool_call_reply"
    by (simp add: prose_client_def request_def)
  have h2: "tool_calls tool_call_reply \<noteq> []" by (simp add: tool_call_reply_def)
  have h3: "messages sample_conversation \<noteq> []" by (simp add: call_defs)
  have h4: "run_tool_calls (toolMap [import_lines_tool]) (tool_calls tool_call_reply)
           \<lparr>messages = messages sample_conversation @
              [\<lparr>role = Assistant,
                content = (case am_content tool_call_reply of None \<Rightarrow> [] | Some c \<Rightarrow> c),
                msg_name = None\<rparr>]\<rparr> = Fulfilled ?w"
    by (simp add: call_defs)
  have h5: "\<forall>r. response_format r = None \<longrightarrow> strict_client r = prose_client r"
    by (simp add: strict_client_def)
  have "callOpenAI 0 (Some strict_client) ?w [import_lines_tool] None =
     Fulfilled (''It imports b.'',
       \<lparr>messages = messages ?w @ [\<lparr>role = Assistant, content = ''It imports b.'', msg_name = None\<rparr>]\<rparr>)"
    by (simp add: call_defs Let_def)
  with follow_up_not_forced [OF h1 h2 h3 h4 h5, of 0] show ?thesis by simp
qed

end
